theory Spec2Isabelle
  imports Main "HOL-Library.Word" "HOL-Library.Signed_Division" "HOL-Library.AList"
begin

section \<open>The consul locker: configuration\<close>

text \<open>
  A \<^verbatim>\<open>time.Duration\<close> is an \<^verbatim>\<open>int64\<close> count of nanoseconds: a 64-bit word read as
  two's complement, compared with the signed orders \<open><=s\<close> and \<open><s\<close>. Go's \<^verbatim>\<open>/\<close> on
  integers truncates towards zero (\<open>sdiv\<close> on the signed values).
\<close>

type_synonym duration = "64 word"

definition Second :: duration where
  "Second = 1000000000"

definition duration_div :: "duration \<Rightarrow> duration \<Rightarrow> duration" where
  "duration_div a b = word_of_int (sint a sdiv sint b)"

definition defaultAddress :: string where
  "defaultAddress = ''localhost:8500''"

definition defaultSessionTTL :: duration where
  "defaultSessionTTL = 10 * Second"

definition defaultRetryTimer :: duration where
  "defaultRetryTimer = 2 * Second"

definition defaultDelay :: duration where
  "defaultDelay = 15 * Second"

record config =
  Address :: string
  SessionTTL :: duration
  Delay :: duration
  RetryTimer :: duration
  RenewPeriod :: duration
  Debug :: bool

datatype error =
    CtxErr               \<comment> \<open>\<^verbatim>\<open>ctx.Err()\<close> of a context that is done\<close>
  | ErrCanceled          \<comment> \<open>\<^verbatim>\<open>lockers.ErrCanceled\<close>\<close>
  | UnknownKey           \<comment> \<open>\<^verbatim>\<open>errors.New("unknown key")\<close>, \<^verbatim>\<open>fmt.Errorf("unknown key")\<close>\<close>
  | BackendErr string    \<comment> \<open>an error returned by the consul client or by a decoder\<close>

text \<open>
  \<^verbatim>\<open>setDefaults\<close> rewrites the fields of \<^verbatim>\<open>c.Cfg\<close> one after the other, each test
  reading the fields as the earlier assignments left them, and returns \<^verbatim>\<open>nil\<close>.
\<close>

definition setDefaults :: "config \<Rightarrow> error option \<times> config" where
  "setDefaults c0 =
     (let c1 = (if SessionTTL c0 <=s 0 then c0\<lparr>SessionTTL := defaultSessionTTL\<rparr> else c0);
          c2 = (if RetryTimer c1 <=s 0 then c1\<lparr>RetryTimer := defaultRetryTimer\<rparr> else c1);
          c3 = (if RenewPeriod c2 <=s 0 \<or> SessionTTL c2 <=s RenewPeriod c2
                then c2\<lparr>RenewPeriod := duration_div (SessionTTL c2) 2\<rparr> else c2);
          c4 = (if Delay c3 <s 0 then c3\<lparr>Delay := defaultDelay\<rparr> else c3);
          c5 = (if 60 * Second <s Delay c4 then c4\<lparr>Delay := 60 * Second\<rparr> else c4)
      in (None, c5))"

text \<open>
  \<^verbatim>\<open>Init\<close>: \<open>decoded\<close> is what \<^verbatim>\<open>lockers.DecodeConfig\<close> made of the configuration map
  (an error, or the decoded \<^verbatim>\<open>c.Cfg\<close>), \<open>opts\<close> are the options as far as they act on
  the configuration, \<open>client_err\<close> is the error of \<^verbatim>\<open>api.NewClient\<close>. The result is the
  error \<^verbatim>\<open>Init\<close> returns, or the configuration the initialised locker holds.
\<close>

definition apply_opts :: "(config \<Rightarrow> config) list \<Rightarrow> config \<Rightarrow> config" where
  "apply_opts opts c = fold (\<lambda>opt c'. opt c') opts c"

definition Init :: "error + config \<Rightarrow> (config \<Rightarrow> config) list \<Rightarrow> error option \<Rightarrow> error + config" where
  "Init decoded opts client_err =
     (case decoded of
        Inl err \<Rightarrow> Inl err
      | Inr cfg \<Rightarrow>
          (case setDefaults (apply_opts opts cfg) of
             (Some err, _) \<Rightarrow> Inl err
           | (None, cfg') \<Rightarrow>
               (case client_err of
                  Some err \<Rightarrow> Inl err
                | None \<Rightarrow> Inr cfg')))"

text \<open>Configurations used as concrete inputs below.\<close>

definition cfg_unset :: config where
  "cfg_unset = \<lparr>Address = [], SessionTTL = 0, Delay = 0, RetryTimer = 0, RenewPeriod = 0,
                 Debug = False\<rparr>"

definition cfg_tiny_ttl :: config where
  "cfg_tiny_ttl = cfg_unset\<lparr>SessionTTL := 1\<rparr>"

definition cfg_out_of_range :: config where
  "cfg_out_of_range = \<lparr>Address = ''consul:8500'', SessionTTL = 10 * Second,
     Delay = 65 * Second, RetryTimer = 3 * Second, RenewPeriod = 20 * Second, Debug = True\<rparr>"

definition cfg_in_range :: config where
  "cfg_in_range = \<lparr>Address = ''consul:8500'', SessionTTL = 10 * Second,
     Delay = 5 * Second, RetryTimer = 3 * Second, RenewPeriod = 4 * Second, Debug = True\<rparr>"

section \<open>The consul locker: registry, channels, backend\<close>

text \<open>
  The state a \<^verbatim>\<open>ConsulLocker\<close> works on: the mutex \<^verbatim>\<open>m\<close> (\<open>True\<close> while it is held),
  the two registry maps, and the part of the world its methods change: which
  \<^verbatim>\<open>chan struct{}\<close> values are closed, the next channel \<^verbatim>\<open>make\<close> hands out, the calls
  issued to the consul client so far, and the values delivered on error channels.
  A Go map has one entry per key and no order: it is an association list read with
  \<open>map_of\<close>, written with \<open>AList.update\<close> and \<open>AList.delete\<close>.
\<close>

type_synonym chan = nat

record locks =
  sessionID :: string
  doneChan :: chan

datatype call =
    SessionCreate
  | KVAcquire string string
  | KVDelete string
  | SessionDestroy string
  | SessionRenewPeriodic string

record locker =
  m :: bool
  acquiredlocks :: "(string \<times> locks) list"
  attemtinglocks :: "(string \<times> locks) list"
  closed :: "chan set"
  next_chan :: chan
  calls :: "call list"
  sent :: "(chan \<times> error) list"

text \<open>
  What the consul client answers: the session id or error of \<^verbatim>\<open>Session().Create\<close>, the
  flag or error of \<^verbatim>\<open>KV().Acquire\<close> for a key and a session, the errors of
  \<^verbatim>\<open>KV().Delete\<close>, \<^verbatim>\<open>Session().Destroy\<close> and \<^verbatim>\<open>Session().RenewPeriodic\<close>.
\<close>

record backend =
  session_create :: "error + string"
  kv_acquire :: "string \<Rightarrow> string \<Rightarrow> error + bool"
  kv_delete :: "string \<Rightarrow> error option"
  session_destroy :: "string \<Rightarrow> error option"
  session_renew :: "string \<Rightarrow> error option"

text \<open>
  A call that does not return: \<open>Deadlock\<close> is \<^verbatim>\<open>c.m.Lock()\<close> on a mutex that is held and
  that no running goroutine will release, \<open>BlockedOnSend\<close> a send on an unbuffered channel
  nobody receives from; the other two are the runtime's panics.
  \<^verbatim>\<open>Unlock\<close>, \<^verbatim>\<open>Stop\<close> and the synchronous part of \<^verbatim>\<open>KeepLock\<close> are given as whole
  calls of one goroutine: every \<^verbatim>\<open>c.m.Unlock()\<close> of the source is run by the goroutine
  that took the mutex, at the end of the same function, so a mutex that is held when such a
  call reaches its \<^verbatim>\<open>c.m.Lock()\<close> is held by a function that has not finished; when that
  function is the caller itself (\<^verbatim>\<open>sync.Mutex\<close> is not reentrant), it never will.
\<close>

datatype fault = Deadlock | BlockedOnSend | CloseOfClosedChannel | UnlockOfUnlockedMutex

definition in_map :: "string \<Rightarrow> (string \<times> locks) list \<Rightarrow> bool" where
  "in_map key al = (map_of al key \<noteq> None)"

definition mutex_Lock :: "locker \<Rightarrow> fault + locker" where
  "mutex_Lock s = (if m s then Inl Deadlock else Inr (s\<lparr>m := True\<rparr>))"

definition mutex_Unlock :: "locker \<Rightarrow> fault + locker" where
  "mutex_Unlock s = (if m s then Inr (s\<lparr>m := False\<rparr>) else Inl UnlockOfUnlockedMutex)"

definition make_chan :: "locker \<Rightarrow> chan \<times> locker" where
  "make_chan s = (next_chan s, s\<lparr>next_chan := Suc (next_chan s)\<rparr>)"

definition close_chan :: "chan \<Rightarrow> locker \<Rightarrow> fault + locker" where
  "close_chan ch s =
     (if ch \<in> closed s then Inl CloseOfClosedChannel else Inr (s\<lparr>closed := insert ch (closed s)\<rparr>))"

definition backend_call :: "call \<Rightarrow> locker \<Rightarrow> locker" where
  "backend_call c s = s\<lparr>calls := calls s @ [c]\<rparr>"

definition deliver :: "chan \<Rightarrow> error \<Rightarrow> locker \<Rightarrow> locker" where
  "deliver ch err s = s\<lparr>sent := sent s @ [(ch, err)]\<rparr>"

definition received :: "chan \<Rightarrow> locker \<Rightarrow> error list" where
  "received ch s = map snd (filter (\<lambda>p. fst p = ch) (sent s))"

subsection \<open>\<^verbatim>\<open>Unlock\<close> and \<^verbatim>\<open>Stop\<close>\<close>

text \<open>
  The body of \<^verbatim>\<open>Unlock\<close> between \<^verbatim>\<open>c.m.Lock()\<close> and the deferred \<^verbatim>\<open>c.m.Unlock()\<close>.
  Both branches end with \<^verbatim>\<open>delete(c.acquiredlocks, key)\<close>.
\<close>

definition Unlock_locked :: "backend \<Rightarrow> string \<Rightarrow> locker \<Rightarrow> fault + (error option \<times> locker)" where
  "Unlock_locked bk key s =
     (case map_of (acquiredlocks s) key of
        Some lock \<Rightarrow>
          (case close_chan (doneChan lock) s of
             Inl f \<Rightarrow> Inl f
           | Inr s1 \<Rightarrow>
               (let s2 = backend_call (KVDelete key) s1 in
                case kv_delete bk key of
                  Some err \<Rightarrow> Inr (Some err, s2)
                | None \<Rightarrow>
                    (let s3 = backend_call (SessionDestroy (sessionID lock)) s2 in
                     case session_destroy bk (sessionID lock) of
                       Some err \<Rightarrow> Inr (Some err, s3)
                     | None \<Rightarrow>
                         Inr (None, s3\<lparr>acquiredlocks := AList.delete key (acquiredlocks s3)\<rparr>))))
      | None \<Rightarrow>
          (case map_of (attemtinglocks s) key of
             Some lock \<Rightarrow>
               (case close_chan (doneChan lock) s of
                  Inl f \<Rightarrow> Inl f
                | Inr s1 \<Rightarrow>
                    (let s2 = backend_call (SessionDestroy (sessionID lock)) s1 in
                     case session_destroy bk (sessionID lock) of
                       Some err \<Rightarrow> Inr (Some err, s2)
                     | None \<Rightarrow>
                         Inr (None, s2\<lparr>acquiredlocks := AList.delete key (acquiredlocks s2)\<rparr>)))
           | None \<Rightarrow> Inr (Some UnknownKey, s)))"

text \<open>
  \<^verbatim>\<open>Unlock\<close> takes the mutex, runs the body and releases the mutex on return. A panic of
  the body leaves the function as a panic.
\<close>

definition Unlock :: "backend \<Rightarrow> string \<Rightarrow> locker \<Rightarrow> fault + (error option \<times> locker)" where
  "Unlock bk key s =
     (case mutex_Lock s of
        Inl f \<Rightarrow> Inl f
      | Inr s1 \<Rightarrow>
          (case Unlock_locked bk key s1 of
             Inl f \<Rightarrow> Inl f
           | Inr (err, s2) \<Rightarrow>
               (case mutex_Unlock s2 of
                  Inl f \<Rightarrow> Inl f
                | Inr s3 \<Rightarrow> Inr (err, s3))))"

text \<open>
  \<^verbatim>\<open>Stop\<close> takes the mutex and ranges over the keys of \<^verbatim>\<open>acquiredlocks\<close>, calling
  \<^verbatim>\<open>c.Unlock(k)\<close> for each and dropping its error; \<open>Stop_range\<close> is the loop over the keys
  in the order the range produces them.
\<close>

fun Stop_range :: "backend \<Rightarrow> string list \<Rightarrow> locker \<Rightarrow> fault + locker" where
  "Stop_range bk [] s = Inr s"
| "Stop_range bk (k # ks) s =
     (case Unlock bk k s of
        Inl f \<Rightarrow> Inl f
      | Inr (_, s') \<Rightarrow> Stop_range bk ks s')"

definition Stop :: "backend \<Rightarrow> locker \<Rightarrow> fault + (error option \<times> locker)" where
  "Stop bk s =
     (case mutex_Lock s of
        Inl f \<Rightarrow> Inl f
      | Inr s1 \<Rightarrow>
          (case Stop_range bk (map fst (acquiredlocks s1)) s1 of
             Inl f \<Rightarrow> Inl f
           | Inr s2 \<Rightarrow>
               (case mutex_Unlock s2 of
                  Inl f \<Rightarrow> Inl f
                | Inr s3 \<Rightarrow> Inr (None, s3))))"

subsection \<open>\<^verbatim>\<open>KeepLock\<close>\<close>

text \<open>
  The synchronous part of \<^verbatim>\<open>KeepLock\<close> returns the two channels and starts a goroutine
  that has captured \<^verbatim>\<open>sessionID\<close>, \<^verbatim>\<open>doneChan\<close> and \<^verbatim>\<open>errChan\<close>: the \<open>keeper\<close>.
  \<^verbatim>\<open>make(chan struct{})\<close> runs before the lookup, whether the key is found or not.
\<close>

record keeper =
  k_sessionID :: string
  k_doneChan :: chan
  k_errChan :: chan

definition KeepLock :: "string \<Rightarrow> locker \<Rightarrow> fault + ((chan \<times> chan) \<times> keeper \<times> locker)" where
  "KeepLock key s =
     (case mutex_Lock s of
        Inl f \<Rightarrow> Inl f
      | Inr s1 \<Rightarrow>
          (let (fresh, s2) = make_chan s1;
               (sid, done) = (case map_of (acquiredlocks s2) key of
                                Some l \<Rightarrow> (sessionID l, doneChan l)
                              | None \<Rightarrow> ([], fresh))
           in case mutex_Unlock s2 of
                Inl f \<Rightarrow> Inl f
              | Inr s3 \<Rightarrow>
                  (let (errChan, s4) = make_chan s3
                   in Inr ((done, errChan),
                           \<lparr>k_sessionID = sid, k_doneChan = done, k_errChan = errChan\<rparr>, s4))))"

text \<open>
  The goroutine. \<open>recv\<close> says whether the caller receives from the error channel: the
  channel is unbuffered, so a send with no receiver never completes. \<open>session_renew\<close>
  is what \<^verbatim>\<open>RenewPeriodic\<close> returns once the done channel is closed or renewal has failed.
  The result is the state the goroutine leaves, with the fault that stopped it, if any.
\<close>

definition KeepLock_go :: "backend \<Rightarrow> bool \<Rightarrow> keeper \<Rightarrow> locker \<Rightarrow> fault option \<times> locker" where
  "KeepLock_go bk recv g s =
     (if k_sessionID g = [] then
        (if recv then
           (let s1 = deliver (k_errChan g) UnknownKey s in
            case close_chan (k_doneChan g) s1 of
              Inl f \<Rightarrow> (Some f, s1)
            | Inr s2 \<Rightarrow> (None, s2))
         else (Some BlockedOnSend, s))
      else
        (let s1 = backend_call (SessionRenewPeriodic (k_sessionID g)) s in
         case session_renew bk (k_sessionID g) of
           Some err \<Rightarrow>
             (if recv then (None, deliver (k_errChan g) err s1) else (Some BlockedOnSend, s1))
         | None \<Rightarrow> (None, s1)))"

subsection \<open>\<^verbatim>\<open>Lock\<close>, step by step\<close>

text \<open>
  \<^verbatim>\<open>Lock\<close> runs beside \<^verbatim>\<open>Unlock\<close> calls of other goroutines, so it is a machine whose
  steps are the points where it reads or writes shared state; each critical section
  (\<^verbatim>\<open>c.m.Lock()\<close> ... \<^verbatim>\<open>c.m.Unlock()\<close>) is one step, which waits while the mutex is held.
  \<^item> \<open>AtSelect\<close>: the \<^verbatim>\<open>select\<close> at the head of the loop;
  \<^item> \<open>AtCreate\<close>: the default case, before \<^verbatim>\<open>Session().Create\<close>;
  \<^item> \<open>AtRecord sid\<close>: before the critical section that sets \<^verbatim>\<open>attemtinglocks[key]\<close>;
  \<^item> \<open>AtAcquire sid\<close>: before \<^verbatim>\<open>KV().Acquire\<close>;
  \<^item> \<open>AtPromote sid\<close>: \<^verbatim>\<open>acquired\<close> is true, before the critical section that sets
    \<^verbatim>\<open>acquiredlocks[key]\<close>;
  \<^item> \<open>AtSleep\<close>: in \<^verbatim>\<open>time.Sleep(c.Cfg.RetryTimer)\<close>, on the way back to the select;
  \<^item> \<open>AtDefer r err\<close>: a \<^verbatim>\<open>return r, err\<close> has run, the deferred function has not;
  \<^item> \<open>Returned r err\<close>: the call is over.
  Each step sees an \<open>env\<close>: whether \<^verbatim>\<open>ctx.Done()\<close> is closed, which ready case the
  \<^verbatim>\<open>select\<close> takes when both are ready (Go chooses at random), and the backend's answers.
\<close>

datatype lock_pc =
    AtSelect
  | AtCreate
  | AtRecord string
  | AtAcquire string
  | AtPromote string
  | AtSleep
  | AtDefer bool "error option"
  | Returned bool "error option"

record env =
  ctx_done :: bool
  pick_ctx :: bool
  consul :: backend

fun lock_step :: "env \<Rightarrow> string \<Rightarrow> chan \<Rightarrow> lock_pc \<times> locker \<Rightarrow> lock_pc \<times> locker" where
  "lock_step e key ch (AtSelect, s) =
     (if ctx_done e \<and> (ch \<notin> closed s \<or> pick_ctx e) then (AtDefer False (Some CtxErr), s)
      else if ch \<in> closed s then (AtDefer False (Some ErrCanceled), s)
      else (AtCreate, s))"
| "lock_step e key ch (AtCreate, s) =
     (let s1 = backend_call SessionCreate s in
      case session_create (consul e) of
        Inl err \<Rightarrow> (AtSleep, s1)
      | Inr sid \<Rightarrow> (AtRecord sid, s1))"
| "lock_step e key ch (AtRecord sid, s) =
     (if m s then (AtRecord sid, s)
      else (AtAcquire sid,
            s\<lparr>attemtinglocks :=
                AList.update key \<lparr>sessionID = sid, doneChan = ch\<rparr> (attemtinglocks s)\<rparr>))"
| "lock_step e key ch (AtAcquire sid, s) =
     (let s1 = backend_call (KVAcquire key sid) s in
      case kv_acquire (consul e) key sid of
        Inl err \<Rightarrow> (AtSleep, s1)
      | Inr acquired \<Rightarrow> (if acquired then (AtPromote sid, s1) else (AtSleep, s1)))"
| "lock_step e key ch (AtPromote sid, s) =
     (if m s then (AtPromote sid, s)
      else (AtDefer True None,
            s\<lparr>acquiredlocks :=
                AList.update key \<lparr>sessionID = sid, doneChan = ch\<rparr> (acquiredlocks s)\<rparr>))"
| "lock_step e key ch (AtSleep, s) = (AtSelect, s)"
| "lock_step e key ch (AtDefer r err, s) =
     (if m s then (AtDefer r err, s)
      else (Returned r err, s\<lparr>attemtinglocks := AList.delete key (attemtinglocks s)\<rparr>))"
| "lock_step e key ch (Returned r err, s) = (Returned r err, s)"

text \<open>A run of the machine through a list of environments, one per step.\<close>

fun Lock_run :: "env list \<Rightarrow> string \<Rightarrow> chan \<Rightarrow> lock_pc \<times> locker \<Rightarrow> lock_pc \<times> locker" where
  "Lock_run [] key ch cf = cf"
| "Lock_run (e # es) key ch cf = Lock_run es key ch (lock_step e key ch cf)"

text \<open>
  A whole call of \<^verbatim>\<open>Lock\<close>: \<^verbatim>\<open>doneChan := make(chan struct{})\<close>, then the machine from
  the select. \<open>None\<close> says the call has not returned within the given steps.
\<close>

definition Lock :: "env list \<Rightarrow> string \<Rightarrow> locker \<Rightarrow> ((bool \<times> error option) \<times> locker) option" where
  "Lock es key s =
     (let (ch, s1) = make_chan s in
      case Lock_run es key ch (AtSelect, s1) of
        (Returned r err, s2) \<Rightarrow> Some ((r, err), s2)
      | _ \<Rightarrow> None)"

text \<open>
  One call of \<^verbatim>\<open>Lock\<close> running beside \<^verbatim>\<open>Unlock\<close> calls of other goroutines: an
  \<^verbatim>\<open>Unlock\<close> holds the mutex from its first statement to its return, so between two
  critical sections of \<^verbatim>\<open>Lock\<close> it happens as a whole. A fault of an \<^verbatim>\<open>Unlock\<close>
  ends the run.
\<close>

datatype action = LockStep env | UnlockCall backend string

fun interleaved :: "action list \<Rightarrow> string \<Rightarrow> chan \<Rightarrow> lock_pc \<times> locker \<Rightarrow> fault + (lock_pc \<times> locker)" where
  "interleaved [] key ch cf = Inr cf"
| "interleaved (LockStep e # acts) key ch cf = interleaved acts key ch (lock_step e key ch cf)"
| "interleaved (UnlockCall bk k # acts) key ch (pc, s) =
     (case Unlock bk k s of
        Inl f \<Rightarrow> Inl f
      | Inr (_, s') \<Rightarrow> interleaved acts key ch (pc, s'))"


fun running :: "lock_pc \<Rightarrow> bool" where
  "running (Returned r err) = False"
| "running pc = True"



subsection \<open>Any number of calls side by side\<close>

text \<open>
  The locker with all the calls of \<^verbatim>\<open>Lock\<close> made on it so far, each with its key, the
  done channel it made and the point where it stands. An event is a new call of
  \<^verbatim>\<open>Lock\<close>, one step of the \<open>i\<close>-th call, or a whole \<^verbatim>\<open>Unlock\<close>, \<^verbatim>\<open>Stop\<close>,
  synchronous part of \<^verbatim>\<open>KeepLock\<close> or \<^verbatim>\<open>KeepLock\<close> goroutine. A goroutine that waits
  forever (for the mutex, or for a receiver) stops alone and the others go on; a \<^verbatim>\<open>Stop\<close>
  that waits forever keeps the mutex; a panic ends the run.
\<close>

record lock_call =
  c_key :: string
  c_chan :: chan
  c_pc :: lock_pc

datatype event =
    LockCall string
  | LockAdvance nat env
  | UnlockBy backend string
  | StopBy backend
  | KeepLockBy string
  | KeeperBy backend bool keeper

fun system_step :: "event \<Rightarrow> locker \<times> lock_call list \<Rightarrow> fault + (locker \<times> lock_call list)" where
  "system_step (LockCall key) (s, cs) =
     (let (ch, s1) = make_chan s
      in Inr (s1, cs @ [\<lparr>c_key = key, c_chan = ch, c_pc = AtSelect\<rparr>]))"
| "system_step (LockAdvance i e) (s, cs) =
     (if i < length cs then
        (let c = cs ! i;
             (pc', s') = lock_step e (c_key c) (c_chan c) (c_pc c, s)
         in Inr (s', cs[i := c\<lparr>c_pc := pc'\<rparr>]))
      else Inr (s, cs))"
| "system_step (UnlockBy bk key) (s, cs) =
     (case Unlock bk key s of
        Inl f \<Rightarrow> (if f = Deadlock then Inr (s, cs) else Inl f)
      | Inr (_, s') \<Rightarrow> Inr (s', cs))"
| "system_step (StopBy bk) (s, cs) =
     (case Stop bk s of
        Inl f \<Rightarrow> (if f = Deadlock then Inr (s\<lparr>m := True\<rparr>, cs) else Inl f)
      | Inr (_, s') \<Rightarrow> Inr (s', cs))"
| "system_step (KeepLockBy key) (s, cs) =
     (case KeepLock key s of
        Inl f \<Rightarrow> (if f = Deadlock then Inr (s, cs) else Inl f)
      | Inr (_, _, s') \<Rightarrow> Inr (s', cs))"
| "system_step (KeeperBy bk recv g) (s, cs) =
     (case KeepLock_go bk recv g s of
        (None, s') \<Rightarrow> Inr (s', cs)
      | (Some f, s') \<Rightarrow> (if f = BlockedOnSend then Inr (s', cs) else Inl f))"

fun system_run :: "event list \<Rightarrow> locker \<times> lock_call list \<Rightarrow> fault + (locker \<times> lock_call list)" where
  "system_run [] st = Inr st"
| "system_run (ev # evs) st =
     (case system_step ev st of
        Inl f \<Rightarrow> Inl f
      | Inr st' \<Rightarrow> system_run evs st')"



text \<open>
  Every channel in use was handed out by \<^verbatim>\<open>make\<close>: closed channels, channels a value
  was delivered on and the done channels of registry entries lie below \<open>next_chan\<close>.
\<close>

definition allocated :: "locker \<Rightarrow> bool" where
  "allocated s =
     ((\<forall>c \<in> closed s. c < next_chan s) \<and>
      (\<forall>p \<in> set (sent s). fst p < next_chan s) \<and>
      (\<forall>p \<in> set (acquiredlocks s). doneChan (snd p) < next_chan s) \<and>
      (\<forall>p \<in> set (attemtinglocks s). doneChan (snd p) < next_chan s))"

subsection \<open>Concrete lockers, backends and environments\<close>

text \<open>The locker the registered factory builds: free mutex, empty maps.\<close>

definition new_locker :: locker where
  "new_locker = \<lparr>m = False, acquiredlocks = [], attemtinglocks = [], closed = {},
                  next_chan = 0, calls = [], sent = []\<rparr>"

definition backend_ok :: backend where
  "backend_ok = \<lparr>session_create = Inr ''s1'', kv_acquire = (\<lambda>k sid. Inr True),
                  kv_delete = (\<lambda>k. None), session_destroy = (\<lambda>sid. None),
                  session_renew = (\<lambda>sid. None)\<rparr>"

definition backend_down :: backend where
  "backend_down = \<lparr>session_create = Inl (BackendErr ''unreachable''),
                    kv_acquire = (\<lambda>k sid. Inl (BackendErr ''unreachable'')),
                    kv_delete = (\<lambda>k. Some (BackendErr ''unreachable'')),
                    session_destroy = (\<lambda>sid. Some (BackendErr ''unreachable'')),
                    session_renew = (\<lambda>sid. Some (BackendErr ''unreachable''))\<rparr>"

definition env_ok :: env where
  "env_ok = \<lparr>ctx_done = False, pick_ctx = False, consul = backend_ok\<rparr>"

definition env_cancelled :: env where
  "env_cancelled = \<lparr>ctx_done = True, pick_ctx = False, consul = backend_down\<rparr>"

text \<open>A backend on which another member holds the key: sessions are created, the
  acquire reports \<^verbatim>\<open>false\<close>.\<close>

definition backend_contended :: backend where
  "backend_contended = \<lparr>session_create = Inr ''s2'', kv_acquire = (\<lambda>k sid. Inr False),
                         kv_delete = (\<lambda>k. None), session_destroy = (\<lambda>sid. None),
                         session_renew = (\<lambda>sid. None)\<rparr>"

definition env_contended :: env where
  "env_contended = \<lparr>ctx_done = False, pick_ctx = False, consul = backend_contended\<rparr>"

text \<open>The context is done, the backend still answers.\<close>

definition env_late_cancel :: env where
  "env_late_cancel = \<lparr>ctx_done = True, pick_ctx = True, consul = backend_ok\<rparr>"

text \<open>A locker that holds \<^verbatim>\<open>work/A\<close> under session \<^verbatim>\<open>s1\<close> with done channel 0.\<close>

definition holding :: locker where
  "holding = new_locker\<lparr>acquiredlocks := [(''work/A'', \<lparr>sessionID = ''s1'', doneChan = 0\<rparr>)],
                         next_chan := 1\<rparr>"

text \<open>A locker whose \<^verbatim>\<open>Lock\<close> call for \<^verbatim>\<open>work/A\<close> is contending: the entry is in
  \<^verbatim>\<open>attemtinglocks\<close> only.\<close>

definition attempting :: locker where
  "attempting = new_locker\<lparr>attemtinglocks := [(''work/A'', \<lparr>sessionID = ''s1'', doneChan = 0\<rparr>)],
                            next_chan := 1\<rparr>"

text \<open>The state between the two critical sections at the end of a successful
  \<^verbatim>\<open>Lock\<close> of \<^verbatim>\<open>work/A\<close> on a new locker whose first channel is 0.\<close>

definition overlap :: locker where
  "overlap = new_locker\<lparr>acquiredlocks := [(''work/A'', \<lparr>sessionID = ''s1'', doneChan = 0\<rparr>)],
     attemtinglocks := [(''work/A'', \<lparr>sessionID = ''s1'', doneChan = 0\<rparr>)],
     next_chan := 1, calls := [SessionCreate, KVAcquire ''work/A'' ''s1'']\<rparr>"

text \<open>A locker that holds \<^verbatim>\<open>work/A\<close> while a second call of \<^verbatim>\<open>Lock\<close> for
  \<^verbatim>\<open>work/A\<close>, with done channel 1, has recorded its attempt under session \<^verbatim>\<open>s2\<close>.\<close>

definition contended :: locker where
  "contended = holding\<lparr>attemtinglocks := [(''work/A'', \<lparr>sessionID = ''s2'', doneChan = 1\<rparr>)],
                        next_chan := 2, calls := [SessionCreate]\<rparr>"

text \<open>The state after a \<^verbatim>\<open>Lock\<close> of \<^verbatim>\<open>work/A\<close> whose acquire succeeded, an
  \<^verbatim>\<open>Unlock\<close> of the key before the call had written \<^verbatim>\<open>acquiredlocks\<close>, and the rest
  of the call.\<close>

definition released :: locker where
  "released = new_locker\<lparr>acquiredlocks := [(''work/A'', \<lparr>sessionID = ''s1'', doneChan = 0\<rparr>)],
     closed := {0}, next_chan := 1,
     calls := [SessionCreate, KVAcquire ''work/A'' ''s1'', SessionDestroy ''s1'']\<rparr>"

subsection \<open>Invariants of a \<^verbatim>\<open>Lock\<close> call\<close>

text \<open>
  \<open>lock_inv\<close>: while the call has not passed the critical section that writes
  \<^verbatim>\<open>acquiredlocks[key]\<close>, the key is not held; once the call is over, the key is not in
  \<^verbatim>\<open>attemtinglocks\<close>. \<open>exit_inv\<close> is the second half alone.
\<close>

definition lock_inv :: "string \<Rightarrow> lock_pc \<times> locker \<Rightarrow> bool" where
  "lock_inv key cf =
     ((in_map key (acquiredlocks (snd cf)) \<longrightarrow>
         fst cf = AtDefer True None \<or> fst cf = Returned True None) \<and>
      (\<forall>r err. fst cf = Returned r err \<longrightarrow> \<not> in_map key (attemtinglocks (snd cf))))"

text \<open>
  \<open>owned\<close>: every entry of \<^verbatim>\<open>attemtinglocks\<close> was recorded by a call of \<^verbatim>\<open>Lock\<close> for
  that key that is still running, and carries that call's done channel.
  \<open>cancel_inv\<close>: a cancelled call is in its loop, or leaving it with \<open>false\<close> and one of
  the two cancellation errors, \<^verbatim>\<open>ErrCanceled\<close> only if the done channel is closed.
\<close>

definition owned :: "locker \<Rightarrow> lock_call list \<Rightarrow> bool" where
  "owned s cs =
     (\<forall>k l. map_of (attemtinglocks s) k = Some l \<longrightarrow>
        (\<exists>j < length cs. c_key (cs ! j) = k \<and> c_chan (cs ! j) = doneChan l \<and>
                          running (c_pc (cs ! j))))"




section \<open>Lemmas about the configuration\<close>

subsection \<open>Facts about halving a duration\<close>

lemma sdiv2_int: "(k::int) sdiv 2 = (if 0 \<le> k then k div 2 else - ((- k) div 2))"
  by (simp add: signed_divide_int_def sgn_if)

lemma sint_half: "sint (duration_div x 2) = sint x sdiv 2"
proof -
  have b: "- (2 ^ 63) \<le> sint x" "sint x < 2 ^ 63"
    using sint_ge [of x] sint_lt [of x] by simp_all
  have "- (2 ^ 63) \<le> sint x sdiv 2" "sint x sdiv 2 < 2 ^ 63"
    using b unfolding sdiv2_int by (auto; linarith)+
  then show ?thesis
    unfolding duration_div_def
    by (simp add: sint_sbintrunc' signed_take_bit_int_eq_self)
qed

lemma half_less: "0 <s x \<Longrightarrow> duration_div x 2 <s x"
  by (simp add: word_sless_alt sint_half sdiv2_int)

lemma sint_eq_1: "sint (x::duration) = 1 \<Longrightarrow> x = 1"
  using signed_word_eqI [of x 1] by simp

lemma half_pos: "0 <s x \<Longrightarrow> x \<noteq> 1 \<Longrightarrow> 0 <s duration_div x 2"
proof -
  assume a: "0 <s x" "x \<noteq> 1"
  then have "sint x \<noteq> 1" using sint_eq_1 by blast
  with a show ?thesis
    by (simp add: word_sless_alt sint_half sdiv2_int)
qed

lemma half_of_one: "duration_div 1 2 = 0"
  by (simp add: duration_div_def signed_divide_int_def)

lemma not_sle_iff: "(\<not> a <=s b) = (b <s a)" for a b :: duration
  by (auto simp: word_sle_eq word_sless_alt)

lemma default_ttl_pos: "0 <s defaultSessionTTL" "defaultSessionTTL \<noteq> 1"
  by (simp_all add: defaultSessionTTL_def Second_def word_sless_alt)

lemma default_delay_range: "0 <=s defaultDelay" "defaultDelay <=s 60 * Second"
  "\<not> 60 * Second <s defaultDelay" "\<not> defaultDelay <s 0"
  by (simp_all add: defaultDelay_def Second_def word_sless_alt word_sle_eq)

lemma sixty_range: "0 <=s 60 * Second" "\<not> 60 * Second <s 0" "\<not> 60 * Second <s 60 * Second"
  by (simp_all add: Second_def word_sless_alt word_sle_eq)

subsection \<open>What \<^verbatim>\<open>setDefaults\<close> leaves behind, field by field\<close>

lemma setDefaults_fst: "fst (setDefaults c) = None"
  by (simp add: setDefaults_def Let_def)

lemma setDefaults_Address: "Address (snd (setDefaults c)) = Address c"
  by (simp add: setDefaults_def Let_def)

lemma setDefaults_Debug: "Debug (snd (setDefaults c)) = Debug c"
  by (simp add: setDefaults_def Let_def)

lemma setDefaults_SessionTTL:
  "SessionTTL (snd (setDefaults c)) = (if SessionTTL c <=s 0 then defaultSessionTTL else SessionTTL c)"
  by (simp add: setDefaults_def Let_def)

lemma setDefaults_RetryTimer:
  "RetryTimer (snd (setDefaults c)) = (if RetryTimer c <=s 0 then defaultRetryTimer else RetryTimer c)"
  by (simp add: setDefaults_def Let_def)

lemma setDefaults_RenewPeriod:
  "RenewPeriod (snd (setDefaults c)) =
     (if RenewPeriod c <=s 0 \<or> SessionTTL (snd (setDefaults c)) <=s RenewPeriod c
      then duration_div (SessionTTL (snd (setDefaults c))) 2 else RenewPeriod c)"
  by (simp add: setDefaults_def Let_def)

lemma setDefaults_Delay:
  "Delay (snd (setDefaults c)) =
     (if Delay c <s 0 then defaultDelay
      else if 60 * Second <s Delay c then 60 * Second else Delay c)"
  by (simp add: setDefaults_def Let_def default_delay_range)

lemma setDefaults_TTL_pos: "0 <s SessionTTL (snd (setDefaults c))"
  using not_sle_iff [of "SessionTTL c" 0] by (simp add: setDefaults_SessionTTL default_ttl_pos)

lemma Init_Inr:
  "Init decoded opts client_err = Inr cfg' \<longleftrightarrow>
     (\<exists>cfg. decoded = Inr cfg \<and> client_err = None \<and> cfg' = snd (setDefaults (apply_opts opts cfg)))"
  by (cases decoded; cases client_err) (auto simp: Init_def setDefaults_def Let_def)

lemma sle_sless: "a <=s b \<longleftrightarrow> \<not> b <s a" for a b :: duration
  by (auto simp: word_sle_eq word_sless_alt)

lemma setDefaults_renew_lt: "RenewPeriod (snd (setDefaults c)) <s SessionTTL (snd (setDefaults c))"
  using setDefaults_TTL_pos [of c]
  by (subst setDefaults_RenewPeriod) (auto simp: half_less not_sle_iff)

lemma setDefaults_renew_pos:
  "SessionTTL (snd (setDefaults c)) \<noteq> 1 \<Longrightarrow> 0 <s RenewPeriod (snd (setDefaults c))"
  using setDefaults_TTL_pos [of c]
  by (subst setDefaults_RenewPeriod) (auto simp: half_pos not_sle_iff)

lemma setDefaults_delay_range:
  "0 <=s Delay (snd (setDefaults c))" "Delay (snd (setDefaults c)) <=s 60 * Second"
  by (auto simp: setDefaults_Delay default_delay_range sixty_range sle_sless)

lemma setDefaults_idem: "snd (setDefaults (snd (setDefaults c))) = snd (setDefaults c)"
proof (rule config.equality)
  let ?c = "snd (setDefaults c)"
  have ttl: "0 <s SessionTTL ?c" by (rule setDefaults_TTL_pos)
  show "SessionTTL (snd (setDefaults ?c)) = SessionTTL ?c"
    using ttl by (simp add: setDefaults_SessionTTL [of ?c] sle_sless)
  have "0 <s RetryTimer ?c"
    by (simp add: setDefaults_RetryTimer defaultRetryTimer_def Second_def sle_sless)
      (simp add: word_sless_alt)
  then show "RetryTimer (snd (setDefaults ?c)) = RetryTimer ?c"
    by (simp add: setDefaults_RetryTimer [of ?c] sle_sless)
  show "Delay (snd (setDefaults ?c)) = Delay ?c"
    using setDefaults_delay_range [of c]
    by (simp add: setDefaults_Delay [of ?c] sle_sless)
  show "Address (snd (setDefaults ?c)) = Address ?c" by (simp add: setDefaults_Address)
  show "Debug (snd (setDefaults ?c)) = Debug ?c" by (simp add: setDefaults_Debug)
  show "RenewPeriod (snd (setDefaults ?c)) = RenewPeriod ?c"
  proof -
    have eq: "SessionTTL (snd (setDefaults ?c)) = SessionTTL ?c" by fact
    show ?thesis
    proof (cases "RenewPeriod c <=s 0 \<or> SessionTTL ?c <=s RenewPeriod c")
      case True
      then have "RenewPeriod ?c = duration_div (SessionTTL ?c) 2"
        by (subst setDefaults_RenewPeriod) simp
      then show ?thesis
        by (subst setDefaults_RenewPeriod [of ?c]) (simp add: eq)
    next
      case False
      then have "RenewPeriod ?c = RenewPeriod c"
        by (subst setDefaults_RenewPeriod) simp
      with False show ?thesis
        by (subst setDefaults_RenewPeriod [of ?c]) (simp add: eq)
    qed
  qed
  show "config.more (snd (setDefaults ?c)) = config.more ?c" by simp
qed

lemmas cfg_eval = Init_def setDefaults_def apply_opts_def Second_def defaultSessionTTL_def
  defaultRetryTimer_def defaultDelay_def duration_div_def signed_divide_int_def
  word_sless_alt word_sle_eq

section \<open>Claims about the configuration\<close>

text \<open>
  C7, as stated: after every accepted \<^verbatim>\<open>Init\<close>, \<open>0 < renewPeriod < sessionTTL\<close> and
  \<open>0 \<le> lockDelay \<le> 60 s\<close>. It fails for a session TTL of one nanosecond: the TTL is
  positive and is kept, the unset renew period is set to \<open>1 / 2 = 0\<close>.
\<close>

theorem Init_renewPeriod_counterexample:
  "Init (Inr cfg_tiny_ttl) [] None = Inr (cfg_tiny_ttl\<lparr>RetryTimer := 2 * Second\<rparr>) \<and>
   \<not> 0 <s RenewPeriod (cfg_tiny_ttl\<lparr>RetryTimer := 2 * Second\<rparr>)"
  by (simp add: cfg_tiny_ttl_def cfg_unset_def cfg_eval)

text \<open>
  C7, amended: for every configuration \<^verbatim>\<open>Init\<close> accepts, afterwards
  \<open>renewPeriod < sessionTTL\<close> and \<open>0 \<le> lockDelay \<le> 60 s\<close>, and \<open>0 < renewPeriod\<close> unless
  the session TTL is 1 ns; a configured renew period at or above the session TTL is reset
  to half the session TTL, and a configured lock delay of 65 s becomes 60 s.
\<close>

theorem Init_normalised:
  assumes "Init (Inr c) opts client_err = Inr cfg"
  shows "RenewPeriod cfg <s SessionTTL cfg \<and>
         (SessionTTL cfg \<noteq> 1 \<longrightarrow> 0 <s RenewPeriod cfg) \<and>
         0 <=s Delay cfg \<and> Delay cfg <=s 60 * Second \<and>
         (SessionTTL cfg <=s RenewPeriod (apply_opts opts c) \<longrightarrow>
            RenewPeriod cfg = duration_div (SessionTTL cfg) 2) \<and>
         (Delay (apply_opts opts c) = 65 * Second \<longrightarrow> Delay cfg = 60 * Second)"
proof -
  from assms have cfg: "cfg = snd (setDefaults (apply_opts opts c))"
    by (simp add: Init_Inr)
  have "65 * Second = Delay (apply_opts opts c) \<Longrightarrow> Delay cfg = 60 * Second"
    unfolding cfg by (simp add: setDefaults_Delay Second_def word_sless_alt)
  moreover have "SessionTTL cfg <=s RenewPeriod (apply_opts opts c) \<Longrightarrow>
            RenewPeriod cfg = duration_div (SessionTTL cfg) 2"
    unfolding cfg by (subst setDefaults_RenewPeriod) simp
  ultimately show ?thesis
    using setDefaults_renew_lt setDefaults_renew_pos setDefaults_delay_range
    unfolding cfg by metis
qed

theorem Init_normalised_witness:
  "Init (Inr cfg_out_of_range) [] None =
     Inr (cfg_out_of_range\<lparr>Delay := 60 * Second, RenewPeriod := 5 * Second\<rparr>) \<and>
   RenewPeriod cfg_out_of_range = 20 * Second \<and> Delay cfg_out_of_range = 65 * Second \<and>
   (5 * Second :: duration) <s 10 * Second \<and> (0 :: duration) <s 5 * Second \<and>
   (0 :: duration) <=s 60 * Second"
  using Init_normalised [of cfg_out_of_range "[]" None
      "cfg_out_of_range\<lparr>Delay := 60 * Second, RenewPeriod := 5 * Second\<rparr>"]
  by (simp add: cfg_out_of_range_def cfg_eval)

text \<open>
  C8, as stated: a configuration whose lock delay is unset has the default of 15 s after
  \<^verbatim>\<open>Init\<close>. An unset \<^verbatim>\<open>Delay\<close> is the zero duration, and \<^verbatim>\<open>setDefaults\<close> tests
  \<^verbatim>\<open>Delay < 0\<close>: zero is kept.
\<close>

theorem Init_lockDelay_unset_counterexample:
  "Init (Inr cfg_unset) [] None =
     Inr (cfg_unset\<lparr>SessionTTL := 10 * Second, RetryTimer := 2 * Second,
                    RenewPeriod := 5 * Second\<rparr>) \<and>
   Delay cfg_unset = 0 \<and>
   Delay (cfg_unset\<lparr>SessionTTL := 10 * Second, RetryTimer := 2 * Second,
                    RenewPeriod := 5 * Second\<rparr>) \<noteq> 15 * Second"
  by (simp add: cfg_unset_def cfg_eval)

text \<open>
  C8, amended: the default lock delay is 15 s, and after \<^verbatim>\<open>Init\<close> a configuration whose
  lock delay was negative has it; a lock delay of zero (the unset value) stays zero.
\<close>

theorem Init_lockDelay:
  assumes "Init (Inr c) opts client_err = Inr cfg"
  shows "defaultDelay = 15 * Second \<and>
         (Delay (apply_opts opts c) <s 0 \<longrightarrow> Delay cfg = defaultDelay) \<and>
         (Delay (apply_opts opts c) = 0 \<longrightarrow> Delay cfg = 0)"
proof -
  from assms have cfg: "cfg = snd (setDefaults (apply_opts opts c))"
    by (simp add: Init_Inr)
  have "0 = Delay (apply_opts opts c) \<Longrightarrow> Delay cfg = 0"
    unfolding cfg by (simp add: setDefaults_Delay Second_def word_sless_alt)
  then show ?thesis
    unfolding cfg by (auto simp: setDefaults_Delay defaultDelay_def)
qed

theorem Init_lockDelay_witness:
  "Init (Inr (cfg_in_range\<lparr>Delay := - Second\<rparr>)) [] None =
     Inr (cfg_in_range\<lparr>Delay := 15 * Second\<rparr>) \<and>
   Delay (cfg_in_range\<lparr>Delay := - Second\<rparr>) <s 0"
  using Init_lockDelay [of "cfg_in_range\<lparr>Delay := - Second\<rparr>" "[]" None
      "cfg_in_range\<lparr>Delay := 15 * Second\<rparr>"]
  by (simp add: cfg_in_range_def cfg_eval)

text \<open>
  C10: \<^verbatim>\<open>setDefaults\<close> returns no error, leaves the address and the debug flag as they
  are, leaves the session TTL and the retry timer as they are when positive, the renew
  period when it lies strictly between 0 and the session TTL, the lock delay when it lies
  between 0 and 60 s; and running it on its own result changes nothing.
\<close>

theorem setDefaults_frame:
  "fst (setDefaults c) = None \<and>
   Address (snd (setDefaults c)) = Address c \<and>
   Debug (snd (setDefaults c)) = Debug c \<and>
   (0 <s SessionTTL c \<longrightarrow> SessionTTL (snd (setDefaults c)) = SessionTTL c) \<and>
   (0 <s RetryTimer c \<longrightarrow> RetryTimer (snd (setDefaults c)) = RetryTimer c) \<and>
   (0 <s RenewPeriod c \<and> RenewPeriod c <s SessionTTL c \<longrightarrow>
      RenewPeriod (snd (setDefaults c)) = RenewPeriod c) \<and>
   (0 <=s Delay c \<and> Delay c <=s 60 * Second \<longrightarrow> Delay (snd (setDefaults c)) = Delay c) \<and>
   setDefaults (snd (setDefaults c)) = setDefaults c"
proof -
  have renew: "RenewPeriod (snd (setDefaults c)) = RenewPeriod c"
    if a: "0 <s RenewPeriod c" "RenewPeriod c <s SessionTTL c"
  proof -
    from a have "0 <s SessionTTL c" by (simp add: word_sless_alt)
    then have "SessionTTL (snd (setDefaults c)) = SessionTTL c"
      by (simp add: setDefaults_SessionTTL sle_sless)
    with a show ?thesis
      by (subst setDefaults_RenewPeriod) (simp add: sle_sless)
  qed
  have twice: "setDefaults (snd (setDefaults c)) = setDefaults c"
    by (rule prod_eqI) (simp_all add: setDefaults_fst setDefaults_idem)
  show ?thesis
    using renew twice
    by (simp add: setDefaults_fst setDefaults_Address setDefaults_Debug setDefaults_SessionTTL
        setDefaults_RetryTimer setDefaults_Delay sle_sless)
qed

theorem setDefaults_frame_witness:
  "0 <s SessionTTL cfg_in_range \<and> 0 <s RetryTimer cfg_in_range \<and>
   0 <s RenewPeriod cfg_in_range \<and> RenewPeriod cfg_in_range <s SessionTTL cfg_in_range \<and>
   0 <=s Delay cfg_in_range \<and> Delay cfg_in_range <=s 60 * Second \<and>
   setDefaults cfg_in_range = (None, cfg_in_range) \<and>
   setDefaults (snd (setDefaults cfg_in_range)) = (None, cfg_in_range)"
  using setDefaults_frame [of cfg_in_range]
  by (simp add: cfg_in_range_def cfg_eval)

section \<open>Lemmas about the registry\<close>

lemmas locker_eval = Unlock_def Unlock_locked_def Stop_def mutex_Lock_def mutex_Unlock_def
  close_chan_def make_chan_def backend_call_def deliver_def received_def in_map_def
  new_locker_def holding_def attempting_def backend_ok_def backend_down_def env_ok_def
  env_cancelled_def KeepLock_def KeepLock_go_def Lock_def allocated_def

lemma in_map_update: "in_map k (AList.update k' v al) \<longleftrightarrow> k = k' \<or> in_map k al"
  by (simp add: in_map_def update_conv')

lemma in_map_delete: "in_map k (AList.delete k' al) \<longleftrightarrow> k \<noteq> k' \<and> in_map k al"
  by (simp add: in_map_def delete_conv')

subsection \<open>\<^verbatim>\<open>Unlock\<close>, path by path\<close>

lemma Unlock_mutex_held: "m s \<Longrightarrow> Unlock bk key s = Inl Deadlock"
  by (simp add: Unlock_def mutex_Lock_def)

lemma Unlock_held_ok:
  assumes "\<not> m s" and "map_of (acquiredlocks s) key = Some l" and "doneChan l \<notin> closed s"
    and "kv_delete bk key = None" and "session_destroy bk (sessionID l) = None"
  shows "Unlock bk key s =
           Inr (None, s\<lparr>closed := insert (doneChan l) (closed s),
                        calls := calls s @ [KVDelete key, SessionDestroy (sessionID l)],
                        acquiredlocks := AList.delete key (acquiredlocks s)\<rparr>)"
  using assms
  by (simp add: Unlock_def Unlock_locked_def mutex_Lock_def mutex_Unlock_def close_chan_def
      backend_call_def)

lemma Unlock_held_delete_fails:
  assumes "\<not> m s" and "map_of (acquiredlocks s) key = Some l" and "doneChan l \<notin> closed s"
    and "kv_delete bk key = Some err"
  shows "Unlock bk key s =
           Inr (Some err, s\<lparr>closed := insert (doneChan l) (closed s),
                            calls := calls s @ [KVDelete key]\<rparr>)"
  using assms
  by (simp add: Unlock_def Unlock_locked_def mutex_Lock_def mutex_Unlock_def close_chan_def
      backend_call_def)

lemma Unlock_held_destroy_fails:
  assumes "\<not> m s" and "map_of (acquiredlocks s) key = Some l" and "doneChan l \<notin> closed s"
    and "kv_delete bk key = None" and "session_destroy bk (sessionID l) = Some err"
  shows "Unlock bk key s =
           Inr (Some err, s\<lparr>closed := insert (doneChan l) (closed s),
                            calls := calls s @ [KVDelete key, SessionDestroy (sessionID l)]\<rparr>)"
  using assms
  by (simp add: Unlock_def Unlock_locked_def mutex_Lock_def mutex_Unlock_def close_chan_def
      backend_call_def)

lemma Unlock_attempting_ok:
  assumes "\<not> m s" and "map_of (acquiredlocks s) key = None"
    and "map_of (attemtinglocks s) key = Some l" and "doneChan l \<notin> closed s"
    and "session_destroy bk (sessionID l) = None"
  shows "Unlock bk key s =
           Inr (None, s\<lparr>closed := insert (doneChan l) (closed s),
                        calls := calls s @ [SessionDestroy (sessionID l)],
                        acquiredlocks := AList.delete key (acquiredlocks s)\<rparr>)"
  using assms
  by (simp add: Unlock_def Unlock_locked_def mutex_Lock_def mutex_Unlock_def close_chan_def
      backend_call_def)

lemma Unlock_unknown_key:
  assumes "\<not> m s" and "map_of (acquiredlocks s) key = None"
    and "map_of (attemtinglocks s) key = None"
  shows "Unlock bk key s = Inr (Some UnknownKey, s)"
  using assms
  by (simp add: Unlock_def Unlock_locked_def mutex_Lock_def mutex_Unlock_def)

lemma Unlock_closed_chan_panics:
  assumes "\<not> m s" and "map_of (acquiredlocks s) key = Some l" and "doneChan l \<in> closed s"
  shows "Unlock bk key s = Inl CloseOfClosedChannel"
  using assms
  by (simp add: Unlock_def Unlock_locked_def mutex_Lock_def close_chan_def)

lemma Unlock_locked_maps:
  "Unlock_locked bk k s = Inr (err, s') \<Longrightarrow>
     attemtinglocks s' = attemtinglocks s \<and>
     (acquiredlocks s' = acquiredlocks s \<or> acquiredlocks s' = AList.delete k (acquiredlocks s))"
  by (auto simp: Unlock_locked_def close_chan_def backend_call_def Let_def
      split: option.splits if_splits)

lemma Unlock_maps:
  "Unlock bk k s = Inr (err, s') \<Longrightarrow>
     attemtinglocks s' = attemtinglocks s \<and>
     (acquiredlocks s' = acquiredlocks s \<or> acquiredlocks s' = AList.delete k (acquiredlocks s))"
  by (auto simp: Unlock_def mutex_Lock_def mutex_Unlock_def
      split: if_splits sum.splits dest!: Unlock_locked_maps)

subsection \<open>\<^verbatim>\<open>Stop\<close>\<close>

text \<open>Whatever order the range produces the keys in, the first \<^verbatim>\<open>c.Unlock(k)\<close> waits
  for the mutex \<^verbatim>\<open>Stop\<close> itself holds.\<close>

lemma Stop_range_deadlocks: "m s \<Longrightarrow> ks \<noteq> [] \<Longrightarrow> Stop_range bk ks s = Inl Deadlock"
  by (cases ks) (simp_all add: Unlock_mutex_held)

lemma Stop_deadlocks: "acquiredlocks s \<noteq> [] \<Longrightarrow> Stop bk s = Inl Deadlock"
  by (simp add: Stop_def mutex_Lock_def Stop_range_deadlocks)

lemma Stop_empty: "acquiredlocks s = [] \<Longrightarrow> \<not> m s \<Longrightarrow> Stop bk s = Inr (None, s)"
  by (simp add: Stop_def mutex_Lock_def mutex_Unlock_def)

subsection \<open>The \<^verbatim>\<open>Lock\<close> machine\<close>

lemma lock_step_inv: "lock_inv key cf \<Longrightarrow> lock_inv key (lock_step e key ch cf)"
proof (cases cf)
  case (Pair pc s)
  assume "lock_inv key cf"
  with Pair show ?thesis
    by (cases pc)
      (auto simp: lock_inv_def Let_def backend_call_def in_map_update in_map_delete
        split: sum.splits)
qed

lemma Unlock_inv:
  "Unlock bk k s = Inr (err, s') \<Longrightarrow> lock_inv key (pc, s) \<Longrightarrow> lock_inv key (pc, s')"
  by (auto simp: lock_inv_def in_map_delete dest!: Unlock_maps)

lemma interleaved_inv:
  "lock_inv key cf \<Longrightarrow> interleaved acts key ch cf = Inr cf' \<Longrightarrow> lock_inv key cf'"
proof (induction acts key ch cf rule: interleaved.induct)
  case (1 key ch cf)
  then show ?case by simp
next
  case (2 e acts key ch cf)
  then show ?case by (simp add: lock_step_inv)
next
  case (3 bk k acts key ch pc s)
  then show ?case
    by (auto split: sum.splits dest: Unlock_inv)
qed





subsection \<open>\<^verbatim>\<open>KeepLock\<close>\<close>

lemma allocated_received: "allocated s \<Longrightarrow> next_chan s \<le> c \<Longrightarrow> received c s = []"
  by (auto simp: allocated_def received_def filter_empty_conv)

lemma KeepLock_channels:
  "\<not> m s \<Longrightarrow>
     \<exists>g. KeepLock key s =
            Inr ((k_doneChan g, Suc (next_chan s)), g, s\<lparr>next_chan := Suc (Suc (next_chan s))\<rparr>) \<and>
          k_errChan g = Suc (next_chan s)"
  by (auto simp: KeepLock_def mutex_Lock_def mutex_Unlock_def make_chan_def split: option.splits)

lemma KeepLock_go_received:
  "length (received c (snd (KeepLock_go bk recv g t))) \<le> Suc (length (received c t))"
  by (auto simp: KeepLock_go_def received_def deliver_def close_chan_def backend_call_def Let_def
      split: option.splits)

subsection \<open>Calls side by side\<close>

lemmas locker_eval2 = locker_eval overlap_def contended_def released_def backend_contended_def
  env_contended_def env_late_cancel_def

lemma lock_step_owned:
  "lock_step e k ch (pc, s) = (pc', s1) \<Longrightarrow> map_of (attemtinglocks s1) k' = Some l \<Longrightarrow>
     (k' = k \<and> doneChan l = ch \<and> running pc') \<or>
     (map_of (attemtinglocks s) k' = Some l \<and> (k' = k \<longrightarrow> running pc \<longrightarrow> running pc'))"
  by (cases pc)
    (auto simp: Let_def backend_call_def update_conv' delete_conv'
      split: sum.splits if_splits)

lemma Stop_Inr: "Stop bk s = Inr (err, s') \<Longrightarrow> s' = s"
proof -
  assume a: "Stop bk s = Inr (err, s')"
  have "acquiredlocks s = []" using a Stop_deadlocks [of s bk] by (cases "acquiredlocks s") auto
  moreover have "\<not> m s" using a by (auto simp: Stop_def mutex_Lock_def)
  ultimately show ?thesis using a by (simp add: Stop_empty)
qed

lemma KeepLock_maps:
  "KeepLock key s = Inr (r, g, s') \<Longrightarrow>
     attemtinglocks s' = attemtinglocks s \<and> acquiredlocks s' = acquiredlocks s"
  by (auto simp: KeepLock_def mutex_Lock_def mutex_Unlock_def make_chan_def Let_def
      split: if_splits option.splits)

lemma KeepLock_go_maps:
  "KeepLock_go bk recv g s = (f, s') \<Longrightarrow>
     attemtinglocks s' = attemtinglocks s \<and> acquiredlocks s' = acquiredlocks s"
  by (auto simp: KeepLock_go_def deliver_def close_chan_def backend_call_def Let_def
      split: if_splits option.splits)

lemma owned_step:
  assumes "owned s cs" and "system_step ev (s, cs) = Inr (s', cs')"
  shows "owned s' cs'"
proof (cases ev)
  case (LockCall key)
  with assms(2) have s': "attemtinglocks s' = attemtinglocks s"
    and cs': "cs' = cs @ [\<lparr>c_key = key, c_chan = next_chan s, c_pc = AtSelect\<rparr>]"
    by (auto simp: make_chan_def)
  show ?thesis
    unfolding owned_def
  proof (intro allI impI)
    fix k l assume "map_of (attemtinglocks s') k = Some l"
    with assms(1) s' obtain j where "j < length cs" "c_key (cs ! j) = k"
      "c_chan (cs ! j) = doneChan l" "running (c_pc (cs ! j))"
      by (auto simp: owned_def)
    then show "\<exists>j<length cs'. c_key (cs' ! j) = k \<and> c_chan (cs' ! j) = doneChan l \<and>
                 running (c_pc (cs' ! j))"
      by (intro exI [of _ j]) (simp add: cs' nth_append)
  qed
next
  case (LockAdvance i e)
  show ?thesis
  proof (cases "i < length cs")
    case False
    with assms LockAdvance show ?thesis by simp
  next
    case True
    obtain pc' s1 where st: "lock_step e (c_key (cs ! i)) (c_chan (cs ! i)) (c_pc (cs ! i), s) = (pc', s1)"
      by (cases "lock_step e (c_key (cs ! i)) (c_chan (cs ! i)) (c_pc (cs ! i), s)")
    with assms(2) LockAdvance True have s': "s' = s1" and cs': "cs' = cs[i := (cs ! i)\<lparr>c_pc := pc'\<rparr>]"
      by (auto simp: Let_def)
    show ?thesis
      unfolding owned_def
    proof (intro allI impI)
      fix k l assume e: "map_of (attemtinglocks s') k = Some l"
      from lock_step_owned [OF st e [unfolded s']]
      show "\<exists>j<length cs'. c_key (cs' ! j) = k \<and> c_chan (cs' ! j) = doneChan l \<and>
                 running (c_pc (cs' ! j))"
      proof
        assume "k = c_key (cs ! i) \<and> doneChan l = c_chan (cs ! i) \<and> running pc'"
        then show ?thesis using True by (intro exI [of _ i]) (simp add: cs')
      next
        assume old: "map_of (attemtinglocks s) k = Some l \<and>
          (k = c_key (cs ! i) \<longrightarrow> running (c_pc (cs ! i)) \<longrightarrow> running pc')"
        with assms(1) obtain j where j: "j < length cs" "c_key (cs ! j) = k"
          "c_chan (cs ! j) = doneChan l" "running (c_pc (cs ! j))"
          by (auto simp: owned_def)
        show ?thesis
        proof (cases "j = i")
          case True
          with j old show ?thesis by (intro exI [of _ i]) (simp add: cs')
        next
          case False
          with j show ?thesis by (intro exI [of _ j]) (simp add: cs')
        qed
      qed
    qed
  qed
next
  case (UnlockBy bk key)
  with assms(2) have "cs' = cs \<and> attemtinglocks s' = attemtinglocks s"
    by (auto split: sum.splits if_splits dest: Unlock_maps)
  with assms(1) show ?thesis by (simp add: owned_def)
next
  case (StopBy bk)
  with assms(2) have "cs' = cs \<and> attemtinglocks s' = attemtinglocks s"
    by (auto split: sum.splits if_splits dest: Stop_Inr)
  with assms(1) show ?thesis by (simp add: owned_def)
next
  case (KeepLockBy key)
  with assms(2) have "cs' = cs \<and> attemtinglocks s' = attemtinglocks s"
    by (auto split: sum.splits if_splits dest: KeepLock_maps)
  with assms(1) show ?thesis by (simp add: owned_def)
next
  case (KeeperBy bk recv g)
  with assms(2) have "cs' = cs \<and> attemtinglocks s' = attemtinglocks s"
    by (auto split: sum.splits if_splits prod.splits option.splits dest: KeepLock_go_maps)
  with assms(1) show ?thesis by (simp add: owned_def)
qed

lemma owned_run: "owned (fst st) (snd st) \<Longrightarrow> system_run evs st = Inr st' \<Longrightarrow> owned (fst st') (snd st')"
proof (induction evs arbitrary: st)
  case Nil
  then show ?case by simp
next
  case (Cons ev evs)
  from Cons.prems(2) obtain st1 where 1: "system_step ev st = Inr st1" and 2: "system_run evs st1 = Inr st'"
    by (auto split: sum.splits)
  from Cons.prems(1) 1 have "owned (fst st1) (snd st1)"
    using owned_step [of "fst st" "snd st" ev "fst st1" "snd st1"] by simp
  then show ?case using 2 by (rule Cons.IH)
qed

lemma lock_step_both:
  "lock_step e key ch (pc, s) = (pc', s1) \<Longrightarrow>
   \<not> (in_map k (attemtinglocks s) \<and> in_map k (acquiredlocks s)) \<Longrightarrow>
   in_map k (attemtinglocks s1) \<and> in_map k (acquiredlocks s1) \<Longrightarrow>
     k = key \<and> ((\<exists>sid. pc = AtRecord sid) \<and> in_map k (acquiredlocks s) \<or>
                (\<exists>sid. pc = AtPromote sid) \<and> in_map k (attemtinglocks s))"
  by (cases pc)
    (auto simp: Let_def backend_call_def in_map_update in_map_delete split: sum.splits if_splits)

lemma system_step_both:
  assumes "system_step ev (s, cs) = Inr (s1, cs1)"
    and "\<not> (in_map k (attemtinglocks s) \<and> in_map k (acquiredlocks s))"
    and "in_map k (attemtinglocks s1) \<and> in_map k (acquiredlocks s1)"
  shows "\<exists>i e. ev = LockAdvance i e \<and> i < length cs \<and> c_key (cs ! i) = k \<and>
           ((\<exists>sid. c_pc (cs ! i) = AtRecord sid) \<and> in_map k (acquiredlocks s) \<or>
            (\<exists>sid. c_pc (cs ! i) = AtPromote sid) \<and> in_map k (attemtinglocks s))"
proof (cases ev)
  case (LockCall key)
  with assms show ?thesis by (auto simp: make_chan_def)
next
  case (LockAdvance i e)
  show ?thesis
  proof (cases "i < length cs")
    case False
    with assms LockAdvance show ?thesis by auto
  next
    case True
    obtain pc' s2 where st: "lock_step e (c_key (cs ! i)) (c_chan (cs ! i)) (c_pc (cs ! i), s) = (pc', s2)"
      by (cases "lock_step e (c_key (cs ! i)) (c_chan (cs ! i)) (c_pc (cs ! i), s)")
    with assms(1) LockAdvance True have "s1 = s2" by (auto simp: Let_def)
    with lock_step_both [OF st assms(2)] assms(3) True LockAdvance show ?thesis by auto
  qed
next
  case (UnlockBy bk key)
  with assms(1) have "attemtinglocks s1 = attemtinglocks s \<and>
     (acquiredlocks s1 = acquiredlocks s \<or> acquiredlocks s1 = AList.delete key (acquiredlocks s))"
    by (auto split: sum.splits if_splits dest: Unlock_maps)
  with assms(2,3) show ?thesis by (auto simp: in_map_delete)
next
  case (StopBy bk)
  with assms(1) have "attemtinglocks s1 = attemtinglocks s \<and> acquiredlocks s1 = acquiredlocks s"
    by (auto split: sum.splits if_splits dest: Stop_Inr)
  with assms(2,3) show ?thesis by simp
next
  case (KeepLockBy key)
  with assms(1) have "attemtinglocks s1 = attemtinglocks s \<and> acquiredlocks s1 = acquiredlocks s"
    by (auto split: sum.splits if_splits dest: KeepLock_maps)
  with assms(2,3) show ?thesis by simp
next
  case (KeeperBy bk recv g)
  with assms(1) have "attemtinglocks s1 = attemtinglocks s \<and> acquiredlocks s1 = acquiredlocks s"
    by (auto split: sum.splits if_splits prod.splits option.splits dest: KeepLock_go_maps)
  with assms(2,3) show ?thesis by simp
qed

subsection \<open>Cancellation of a \<^verbatim>\<open>Lock\<close> call\<close>

lemma lock_step_frame: "m (snd (lock_step e key ch (pc, s))) = m s"
  "closed (snd (lock_step e key ch (pc, s))) = closed s"
  by (cases pc; simp add: Let_def backend_call_def split: sum.splits)+














lemma Lock_mutex_held: "m s \<Longrightarrow> Lock es key s = None"
proof -
  assume ms: "m s"
  have "\<And>pc t. m t \<Longrightarrow> running pc \<Longrightarrow> running (fst (Lock_run es key ch (pc, t)))" for ch
  proof (induction es)
    case Nil
    then show ?case by simp
  next
    case (Cons e es)
    obtain pc1 t1 where st: "lock_step e key ch (pc, t) = (pc1, t1)"
      by (cases "lock_step e key ch (pc, t)")
    have "m t1" using lock_step_frame(1) [of e key ch pc t] st Cons.prems(1) by simp
    moreover have "running pc1"
      using st Cons.prems by (cases pc) (auto simp: Let_def split: sum.splits if_splits)
    ultimately show ?case using Cons.IH st by simp
  qed
  from this [of "s\<lparr>next_chan := Suc (next_chan s)\<rparr>" AtSelect "next_chan s"] ms
  have "running (fst (Lock_run es key (next_chan s) (AtSelect, s\<lparr>next_chan := Suc (next_chan s)\<rparr>)))"
    by simp
  then show ?thesis
    by (cases "Lock_run es key (next_chan s) (AtSelect, s\<lparr>next_chan := Suc (next_chan s)\<rparr>)")
      (auto simp: Lock_def make_chan_def split: lock_pc.splits)
qed

subsection \<open>Runs on concrete lockers\<close>

text \<open>An uncontended \<^verbatim>\<open>Lock\<close> on a new locker returns \<open>(true, nil)\<close> after six steps,
  with the key held and not attempted.\<close>

lemma Lock_uncontended:
  "Lock [env_ok, env_ok, env_ok, env_ok, env_ok, env_ok] ''work/A'' new_locker =
     Some ((True, None),
           new_locker\<lparr>acquiredlocks := [(''work/A'', \<lparr>sessionID = ''s1'', doneChan = 0\<rparr>)],
                      next_chan := 1, calls := [SessionCreate, KVAcquire ''work/A'' ''s1'']\<rparr>)"
  by (simp add: locker_eval)

text \<open>\<^verbatim>\<open>Unlock\<close> of a held key with a working backend removes it; a second \<^verbatim>\<open>Unlock\<close>
  then reports an unknown key.\<close>

lemma Unlock_holding_ok:
  "Unlock backend_ok ''work/A'' holding =
     Inr (None, holding\<lparr>acquiredlocks := [], closed := {0},
                       calls := [KVDelete ''work/A'', SessionDestroy ''s1'']\<rparr>) \<and>
   Unlock backend_ok ''work/A''
       (holding\<lparr>acquiredlocks := [], closed := {0},
                calls := [KVDelete ''work/A'', SessionDestroy ''s1'']\<rparr>) =
     Inr (Some UnknownKey,
          holding\<lparr>acquiredlocks := [], closed := {0},
                   calls := [KVDelete ''work/A'', SessionDestroy ''s1'']\<rparr>)"
  by (simp add: locker_eval)

text \<open>Two \<^verbatim>\<open>Unlock\<close> calls of a contending key, before its \<^verbatim>\<open>Lock\<close> has run its
  deferred delete: the entry is still in \<^verbatim>\<open>attemtinglocks\<close> and its channel is closed a
  second time.\<close>

lemma Unlock_attempting_twice_panics:
  "Unlock backend_ok ''work/A'' (attempting\<lparr>closed := {0}, calls := [SessionDestroy ''s1'']\<rparr>) =
     Inl CloseOfClosedChannel"
  by (simp add: locker_eval)

section \<open>Claims about the registry\<close>

text \<open>
  C1, as stated: at every instant a key is in at most one of \<^verbatim>\<open>attemtinglocks\<close> and
  \<^verbatim>\<open>acquiredlocks\<close>, the move on a successful acquire being atomic. Two runs end with
  the mutex free and \<^verbatim>\<open>work/A\<close> in both maps: an uncontended \<^verbatim>\<open>Lock\<close> on a new locker,
  after the critical section that writes \<^verbatim>\<open>acquiredlocks\<close> and before the deferred
  delete; and a \<^verbatim>\<open>Lock\<close> of a key the locker already holds, from its record step on.
\<close>

theorem registry_overlap_counterexample:
  "Lock_run [env_ok, env_ok, env_ok, env_ok, env_ok] ''work/A'' 0
       (AtSelect, new_locker\<lparr>next_chan := 1\<rparr>) = (AtDefer True None, overlap) \<and>
   \<not> m overlap \<and>
   in_map ''work/A'' (attemtinglocks overlap) \<and> in_map ''work/A'' (acquiredlocks overlap) \<and>
   Lock_run [env_contended, env_contended, env_contended] ''work/A'' 1
       (AtSelect, holding\<lparr>next_chan := 2\<rparr>) = (AtAcquire ''s2'', contended) \<and>
   \<not> m contended \<and>
   in_map ''work/A'' (attemtinglocks contended) \<and> in_map ''work/A'' (acquiredlocks contended)"
  by (simp add: locker_eval2 contended_def)

text \<open>
  C1, amended. From a locker with no attempt recorded, through any calls of \<^verbatim>\<open>Lock\<close>,
  \<^verbatim>\<open>Unlock\<close>, \<^verbatim>\<open>Stop\<close> and \<^verbatim>\<open>KeepLock\<close> in any interleaving: a key is in
  \<^verbatim>\<open>attemtinglocks\<close> only while a call of \<^verbatim>\<open>Lock\<close> for it, the one whose done channel
  the entry carries, has not returned; so a key with no running \<^verbatim>\<open>Lock\<close> call is in at
  most one map. A key that is in at most one map gets into both by one of two steps of a
  \<^verbatim>\<open>Lock\<close> call for it only: the record step when the key is held, and the insertion
  into \<^verbatim>\<open>acquiredlocks\<close> after a successful acquire while the attempt entry is there,
  which is a critical section of its own. For a \<^verbatim>\<open>Lock\<close> call on a key that was not
  held when it began, beside \<^verbatim>\<open>Unlock\<close> calls only, the key is in both maps between
  that insertion and the deferred delete and at no other point, and after the call it is
  not in \<^verbatim>\<open>attemtinglocks\<close>.
\<close>

theorem registry_overlap_needs_running_Lock:
  "(attemtinglocks s = [] \<and> system_run evs (s, []) = Inr (s', cs') \<and>
      in_map key (attemtinglocks s') \<longrightarrow>
        (\<exists>c \<in> set cs'. c_key c = key \<and> running (c_pc c) \<and>
           map_option doneChan (map_of (attemtinglocks s') key) = Some (c_chan c))) \<and>
   (system_step ev (s1, cs1) = Inr (s2, cs2) \<and>
      \<not> (in_map key (attemtinglocks s1) \<and> in_map key (acquiredlocks s1)) \<and>
      in_map key (attemtinglocks s2) \<and> in_map key (acquiredlocks s2) \<longrightarrow>
        (\<exists>i e. ev = LockAdvance i e \<and> i < length cs1 \<and> c_key (cs1 ! i) = key \<and>
           ((\<exists>sid. c_pc (cs1 ! i) = AtRecord sid) \<and> in_map key (acquiredlocks s1) \<or>
            (\<exists>sid. c_pc (cs1 ! i) = AtPromote sid) \<and> in_map key (attemtinglocks s1)))) \<and>
   (\<not> in_map key (acquiredlocks t) \<and> interleaved acts key ch (AtSelect, t) = Inr (pc, t') \<longrightarrow>
      (in_map key (attemtinglocks t') \<and> in_map key (acquiredlocks t') \<longrightarrow>
         pc = AtDefer True None) \<and>
      (\<forall>r err. pc = Returned r err \<longrightarrow> \<not> in_map key (attemtinglocks t')))"
proof -
  have general: "\<exists>c \<in> set cs'. c_key c = key \<and> running (c_pc c) \<and>
           map_option doneChan (map_of (attemtinglocks s') key) = Some (c_chan c)"
    if a: "attemtinglocks s = []" "system_run evs (s, []) = Inr (s', cs')"
      "in_map key (attemtinglocks s')"
  proof -
    from a(1) have "owned (fst (s, [])) (snd (s, []))" by (simp add: owned_def)
    then have "owned (fst (s', cs')) (snd (s', cs'))" using a(2) by (rule owned_run)
    moreover from a(3) obtain l where "map_of (attemtinglocks s') key = Some l"
      by (auto simp: in_map_def)
    ultimately obtain j where "j < length cs'" "c_key (cs' ! j) = key"
      "c_chan (cs' ! j) = doneChan l" "running (c_pc (cs' ! j))"
      and l: "map_of (attemtinglocks s') key = Some l"
      by (auto simp: owned_def)
    then show ?thesis by (intro bexI [of _ "cs' ! j"]) simp_all
  qed
  have entry: "\<exists>i e. ev = LockAdvance i e \<and> i < length cs1 \<and> c_key (cs1 ! i) = key \<and>
           ((\<exists>sid. c_pc (cs1 ! i) = AtRecord sid) \<and> in_map key (acquiredlocks s1) \<or>
            (\<exists>sid. c_pc (cs1 ! i) = AtPromote sid) \<and> in_map key (attemtinglocks s1))"
    if "system_step ev (s1, cs1) = Inr (s2, cs2)"
      "\<not> (in_map key (attemtinglocks s1) \<and> in_map key (acquiredlocks s1))"
      "in_map key (attemtinglocks s2) \<and> in_map key (acquiredlocks s2)"
    using that by (rule system_step_both)
  have single: "(in_map key (attemtinglocks t') \<and> in_map key (acquiredlocks t') \<longrightarrow>
         pc = AtDefer True None) \<and>
      (\<forall>r err. pc = Returned r err \<longrightarrow> \<not> in_map key (attemtinglocks t'))"
    if b: "\<not> in_map key (acquiredlocks t)" "interleaved acts key ch (AtSelect, t) = Inr (pc, t')"
  proof -
    from b(1) have "lock_inv key (AtSelect, t)" by (simp add: lock_inv_def)
    then have "lock_inv key (pc, t')" using b(2) by (rule interleaved_inv)
    then show ?thesis by (auto simp: lock_inv_def)
  qed
  show ?thesis using general entry single by blast
qed

theorem registry_overlap_needs_running_Lock_witness:
  "attemtinglocks holding = [] \<and>
   system_run [LockCall ''work/A'', LockAdvance 0 env_contended, LockAdvance 0 env_contended,
               LockAdvance 0 env_contended] (holding, []) =
     Inr (contended, [\<lparr>c_key = ''work/A'', c_chan = 1, c_pc = AtAcquire ''s2''\<rparr>]) \<and>
   in_map ''work/A'' (attemtinglocks contended) \<and> in_map ''work/A'' (acquiredlocks contended) \<and>
   running (AtAcquire ''s2'') \<and>
   system_step (LockAdvance 0 env_ok)
       (overlap\<lparr>acquiredlocks := []\<rparr>, [\<lparr>c_key = ''work/A'', c_chan = 0, c_pc = AtPromote ''s1''\<rparr>]) =
     Inr (overlap, [\<lparr>c_key = ''work/A'', c_chan = 0, c_pc = AtDefer True None\<rparr>]) \<and>
   \<not> in_map ''work/A'' (acquiredlocks (overlap\<lparr>acquiredlocks := []\<rparr>)) \<and>
   in_map ''work/A'' (attemtinglocks (overlap\<lparr>acquiredlocks := []\<rparr>)) \<and>
   \<not> in_map ''work/A'' (acquiredlocks (new_locker\<lparr>next_chan := 1\<rparr>)) \<and>
   interleaved [LockStep env_ok, LockStep env_ok, LockStep env_ok, LockStep env_ok, LockStep env_ok]
      ''work/A'' 0 (AtSelect, new_locker\<lparr>next_chan := 1\<rparr>) = Inr (AtDefer True None, overlap) \<and>
   in_map ''work/A'' (attemtinglocks overlap) \<and> in_map ''work/A'' (acquiredlocks overlap)"
  using registry_overlap_needs_running_Lock [where s = holding
      and evs = "[LockCall ''work/A'', LockAdvance 0 env_contended, LockAdvance 0 env_contended,
                  LockAdvance 0 env_contended]"
      and s' = contended and cs' = "[\<lparr>c_key = ''work/A'', c_chan = 1, c_pc = AtAcquire ''s2''\<rparr>]"
      and key = "''work/A''"
      and ev = "LockAdvance 0 env_ok" and ?s1.0 = "overlap\<lparr>acquiredlocks := []\<rparr>"
      and ?cs1.0 = "[\<lparr>c_key = ''work/A'', c_chan = 0, c_pc = AtPromote ''s1''\<rparr>]"
      and ?s2.0 = overlap
      and ?cs2.0 = "[\<lparr>c_key = ''work/A'', c_chan = 0, c_pc = AtDefer True None\<rparr>]"
      and t = "new_locker\<lparr>next_chan := 1\<rparr>"
      and acts = "[LockStep env_ok, LockStep env_ok, LockStep env_ok, LockStep env_ok, LockStep env_ok]"
      and ch = 0 and pc = "AtDefer True None" and t' = overlap]
  by (simp add: locker_eval2)

text \<open>
  C2: \<^verbatim>\<open>Stop\<close> always returns and releases every held lock. On a locker that holds
  \<^verbatim>\<open>work/A\<close> the code does not return: \<^verbatim>\<open>Stop\<close> takes the mutex and its first
  \<^verbatim>\<open>c.Unlock(k)\<close> waits for that same mutex.
\<close>

theorem Stop_holding_deadlocks: "Stop backend_ok holding = Inl Deadlock"
  by (simp add: locker_eval)

text \<open>
  C3: \<^verbatim>\<open>Unlock\<close> of a key that is in \<^verbatim>\<open>attemtinglocks\<close> only closes the done channel,
  destroys the session, removes the entry and returns no error. On the contending locker
  the code closes channel 0, destroys session \<^verbatim>\<open>s1\<close> and returns \<^verbatim>\<open>nil\<close>, but its
  delete names \<^verbatim>\<open>acquiredlocks\<close>: the entry is still in \<^verbatim>\<open>attemtinglocks\<close>.
\<close>

theorem Unlock_attempting_keeps_entry:
  "Unlock backend_ok ''work/A'' attempting =
     Inr (None, attempting\<lparr>closed := {0}, calls := [SessionDestroy ''s1'']\<rparr>) \<and>
   in_map ''work/A''
     (attemtinglocks (attempting\<lparr>closed := {0}, calls := [SessionDestroy ''s1'']\<rparr>))"
  by (simp add: locker_eval)

text \<open>
  C4: \<^verbatim>\<open>Unlock\<close> of a held key closes the done channel, deletes the backend key,
  destroys the session and removes the entry, and removes the entry also when a backend
  call fails. With a backend that is down the code closes channel 0, returns the error of
  \<^verbatim>\<open>KV().Delete\<close> at once, and the entry is still in \<^verbatim>\<open>acquiredlocks\<close>.
\<close>

theorem Unlock_held_error_keeps_entry:
  "Unlock backend_down ''work/A'' holding =
     Inr (Some (BackendErr ''unreachable''),
          holding\<lparr>closed := {0}, calls := [KVDelete ''work/A'']\<rparr>) \<and>
   in_map ''work/A''
     (acquiredlocks (holding\<lparr>closed := {0}, calls := [KVDelete ''work/A'']\<rparr>))"
  by (simp add: locker_eval)




text \<open>
  C6: no sequence of \<^verbatim>\<open>Unlock\<close> calls closes a done channel twice. An \<^verbatim>\<open>Unlock\<close> of
  the held key \<^verbatim>\<open>work/A\<close> that fails in the backend has closed channel 0 and left the
  entry in \<^verbatim>\<open>acquiredlocks\<close>; the next \<^verbatim>\<open>Unlock\<close> of the key closes channel 0 again,
  which is the runtime panic for a close of a closed channel.
\<close>

theorem Unlock_after_error_closes_again:
  "Unlock backend_down ''work/A'' holding =
     Inr (Some (BackendErr ''unreachable''),
          holding\<lparr>closed := {0}, calls := [KVDelete ''work/A'']\<rparr>) \<and>
   Unlock backend_ok ''work/A'' (holding\<lparr>closed := {0}, calls := [KVDelete ''work/A'']\<rparr>) =
     Inl CloseOfClosedChannel"
  by (simp add: locker_eval)

text \<open>
  C9: on a locker whose channels were all handed out by \<^verbatim>\<open>make\<close> and whose mutex is
  free, \<^verbatim>\<open>KeepLock\<close> of a key that is not held returns the channel \<^verbatim>\<open>make\<close> has just
  handed out, closed nowhere and in no registry entry, and a new error channel; its goroutine,
  the caller receiving, delivers \<^verbatim>\<open>unknown key\<close> on the error channel, closes the
  done channel, and that error is all the error channel has carried. For every key, held or
  not, nothing has been delivered on the returned error channel when \<^verbatim>\<open>KeepLock\<close> returns
  and the goroutine delivers at most one value on it, whatever the backend answers.
\<close>

theorem KeepLock_unknown_key:
  assumes "allocated s" and "\<not> m s"
  shows "(\<not> in_map key (acquiredlocks s) \<longrightarrow>
            KeepLock key s =
              Inr ((next_chan s, Suc (next_chan s)),
                   \<lparr>k_sessionID = [], k_doneChan = next_chan s, k_errChan = Suc (next_chan s)\<rparr>,
                   s\<lparr>next_chan := Suc (Suc (next_chan s))\<rparr>) \<and>
            next_chan s \<notin> closed s \<and>
            next_chan s \<notin> (doneChan \<circ> snd) ` set (acquiredlocks s @ attemtinglocks s) \<and>
            KeepLock_go bk True
                \<lparr>k_sessionID = [], k_doneChan = next_chan s, k_errChan = Suc (next_chan s)\<rparr>
                (s\<lparr>next_chan := Suc (Suc (next_chan s))\<rparr>) =
              (None, s\<lparr>next_chan := Suc (Suc (next_chan s)),
                       sent := sent s @ [(Suc (next_chan s), UnknownKey)],
                       closed := insert (next_chan s) (closed s)\<rparr>) \<and>
            received (Suc (next_chan s))
                (s\<lparr>next_chan := Suc (Suc (next_chan s)),
                   sent := sent s @ [(Suc (next_chan s), UnknownKey)],
                   closed := insert (next_chan s) (closed s)\<rparr>) = [UnknownKey]) \<and>
         (KeepLock key s = Inr ((done, errc), g, s1) \<longrightarrow>
            received errc s1 = [] \<and>
            length (received errc (snd (KeepLock_go bk recv g s1))) \<le> 1)"
proof -
  have fresh: "next_chan s \<notin> closed s"
    "next_chan s \<notin> (doneChan \<circ> snd) ` set (acquiredlocks s @ attemtinglocks s)"
    using assms(1) by (auto simp: allocated_def)
  have none: "received (Suc (next_chan s)) s = []"
    using assms(1) by (simp add: allocated_received)
  have unknown: "KeepLock key s =
      Inr ((next_chan s, Suc (next_chan s)),
           \<lparr>k_sessionID = [], k_doneChan = next_chan s, k_errChan = Suc (next_chan s)\<rparr>,
           s\<lparr>next_chan := Suc (Suc (next_chan s))\<rparr>)"
    if "\<not> in_map key (acquiredlocks s)"
    using that assms(2)
    by (simp add: KeepLock_def mutex_Lock_def mutex_Unlock_def make_chan_def in_map_def)
  have go: "KeepLock_go bk True
        \<lparr>k_sessionID = [], k_doneChan = next_chan s, k_errChan = Suc (next_chan s)\<rparr>
        (s\<lparr>next_chan := Suc (Suc (next_chan s))\<rparr>) =
      (None, s\<lparr>next_chan := Suc (Suc (next_chan s)),
               sent := sent s @ [(Suc (next_chan s), UnknownKey)],
               closed := insert (next_chan s) (closed s)\<rparr>)"
    using fresh(1) by (simp add: KeepLock_go_def deliver_def close_chan_def)
  have one: "received (Suc (next_chan s))
        (s\<lparr>next_chan := Suc (Suc (next_chan s)),
           sent := sent s @ [(Suc (next_chan s), UnknownKey)],
           closed := insert (next_chan s) (closed s)\<rparr>) = [UnknownKey]"
    using none by (simp add: received_def)
  have bound: "received errc s1 = [] \<and>
      length (received errc (snd (KeepLock_go bk recv g s1))) \<le> 1"
    if k: "KeepLock key s = Inr ((done, errc), g, s1)"
  proof -
    from KeepLock_channels [OF assms(2), of key] k
    have e: "errc = Suc (next_chan s)" and s1: "s1 = s\<lparr>next_chan := Suc (Suc (next_chan s))\<rparr>"
      by auto
    have r: "received errc s1 = []"
      using none by (simp add: e s1 received_def)
    with KeepLock_go_received [of errc bk recv g s1] show ?thesis by simp
  qed
  show ?thesis
    using fresh unknown go one bound by blast
qed

theorem KeepLock_unknown_key_witness:
  "allocated holding \<and> \<not> m holding \<and> \<not> in_map ''work/B'' (acquiredlocks holding) \<and>
   KeepLock ''work/B'' holding =
     Inr ((1, 2), \<lparr>k_sessionID = [], k_doneChan = 1, k_errChan = 2\<rparr>, holding\<lparr>next_chan := 3\<rparr>) \<and>
   KeepLock_go backend_ok True \<lparr>k_sessionID = [], k_doneChan = 1, k_errChan = 2\<rparr>
       (holding\<lparr>next_chan := 3\<rparr>) =
     (None, holding\<lparr>next_chan := 3, sent := [(2, UnknownKey)], closed := {1}\<rparr>) \<and>
   received 2 (holding\<lparr>next_chan := 3, sent := [(2, UnknownKey)], closed := {1}\<rparr>) =
     [UnknownKey] \<and>
   KeepLock ''work/A'' holding =
     Inr ((0, 2), \<lparr>k_sessionID = ''s1'', k_doneChan = 0, k_errChan = 2\<rparr>,
          holding\<lparr>next_chan := 3\<rparr>) \<and>
   received 2 (snd (KeepLock_go backend_down True
       \<lparr>k_sessionID = ''s1'', k_doneChan = 0, k_errChan = 2\<rparr> (holding\<lparr>next_chan := 3\<rparr>))) =
     [BackendErr ''unreachable'']"
  using KeepLock_unknown_key [where s = holding and key = "''work/B''" and bk = backend_ok]
    KeepLock_unknown_key [where s = holding and key = "''work/A''" and bk = backend_down
      and recv = True and ?done = 0 and errc = 2
      and g = "\<lparr>k_sessionID = ''s1'', k_doneChan = 0, k_errChan = 2\<rparr>"
      and ?s1.0 = "holding\<lparr>next_chan := 3\<rparr>"]
  by (simp add: locker_eval)

end
